theory Spec2Isabelle
  imports Main "HOL-Library.Word" "HOL-Library.Signed_Division"
begin

section \<open>The console of \<open>src/main.c\<close>: data\<close>

text \<open>
  The target is an STM32 (32-bit ARM): \<open>int\<close> has 32 bits, \<open>uint16_t\<close> operands are
  promoted to \<open>int\<close> before arithmetic, and \<open>%\<close> truncates towards zero, so its result
  has the sign of the dividend. The promoted operands are at most 65535, no \<open>int\<close>
  operation below can overflow, and the promoted arithmetic is modelled on HOL's \<open>int\<close>
  with \<open>smod\<close> for C's \<open>%\<close>. The two indices are stored as 16-bit words; \<open>char\<close> is an
  8-bit word.
\<close>

type_synonym byte = "8 word"

abbreviation BUFLEN :: int where
  "BUFLEN \<equiv> 127"

text \<open>
  The static variables \<open>start_ndx\<close>, \<open>end_ndx\<close> and \<open>buf\<close> (an array of \<open>BUFLEN + 1\<close>
  characters), together with \<open>tx\<close>, the bytes handed to \<open>usart_send_blocking\<close> so far,
  oldest first.
\<close>

record console =
  start_ndx :: "16 word"
  end_ndx :: "16 word"
  buf :: "byte list"
  tx :: "byte list"

text \<open>Static storage is zero-initialised; nothing has been sent yet.\<close>

definition init :: console where
  "init = \<lparr>start_ndx = 0, end_ndx = 0, buf = replicate 128 0, tx = []\<rparr>"

text \<open>
  The indices only ever receive results of \<open>inc_ndx\<close> and \<open>dec_ndx\<close>, so they stay below
  \<open>BUFLEN\<close> and every access to \<open>buf\<close> is in range; \<open>wf\<close> states this, and the lemmas
  \<open>wf_init\<close> to \<open>wf_sys_write\<close> below prove it for every operation. With an index of
  128 or more the C program would read or write outside the array, which C leaves
  undefined; the theorems that depend on the contents of \<open>buf\<close> assume \<open>wf\<close>.
\<close>

definition wf :: "console \<Rightarrow> bool" where
  "wf s = (uint (start_ndx s) < BUFLEN \<and> uint (end_ndx s) < BUFLEN \<and> length (buf s) = 128)"

text \<open>The macro \<open>buf_len\<close> and the two index helpers.\<close>

definition buf_len :: "console \<Rightarrow> int" where
  "buf_len s = (uint (end_ndx s) - uint (start_ndx s)) smod BUFLEN"

definition inc_ndx :: "int \<Rightarrow> int" where
  "inc_ndx n = (n + 1) smod BUFLEN"

definition dec_ndx :: "int \<Rightarrow> int" where
  "dec_ndx n = ((n + BUFLEN) - 1) smod BUFLEN"

section \<open>The byte transport\<close>

text \<open>
  \<open>usart_send_blocking\<close> and \<open>usart_recv_blocking\<close> belong to libopencm3. Sending appends
  the byte to \<open>tx\<close>. The bytes the transport will deliver are a list \<open>rx\<close> that the
  functions below take and hand back shortened; receiving from the empty list blocks
  forever, which is the result \<open>None\<close>.
\<close>

definition usart_send_blocking :: "byte \<Rightarrow> console \<Rightarrow> console" where
  "usart_send_blocking b s = s\<lparr>tx := tx s @ [b]\<rparr>"

text \<open>\<open>isspace\<close> of the C library in the "C" locale: space, and \<open>\t \n \v \f \r\<close>.\<close>

definition isspace :: "byte \<Rightarrow> bool" where
  "isspace c = (c = 0x20 \<or> (0x09 \<le> c \<and> c \<le> 0x0D))"

section \<open>The line editor\<close>

definition back_up :: "console \<Rightarrow> console" where
  "back_up s =
     usart_send_blocking 0x08
       (usart_send_blocking 0x20
         (usart_send_blocking 0x08
           (s\<lparr>end_ndx := word_of_int (dec_ndx (uint (end_ndx s)))\<rparr>)))"

text \<open>
  The loop of \<open>^W\<close>: \<open>while ((buf_len > 0) && (!(isspace((int)buf[end_ndx])))) back_up();\<close>
  and the loop of \<open>^U\<close>: \<open>while (buf_len > 0) back_up();\<close>. Each round with
  \<open>buf_len > 0\<close> has \<open>start_ndx < end_ndx\<close>, so \<open>dec_ndx\<close> lowers \<open>end_ndx\<close> and the
  loops terminate in every state.
\<close>

definition erase_measure :: "console \<Rightarrow> nat" where
  "erase_measure s = (if uint (end_ndx s) < BUFLEN then unat (end_ndx s) else 128)"

function erase_word :: "console \<Rightarrow> console" where
  "erase_word s =
     (if buf_len s > 0 \<and> \<not> isspace (buf s ! unat (end_ndx s))
      then erase_word (back_up s) else s)"
  by pat_completeness auto

function erase_line :: "console \<Rightarrow> console" where
  "erase_line s = (if buf_len s > 0 then erase_line (back_up s) else s)"
  by pat_completeness auto

lemma back_up_measure:
  assumes pos: "0 < buf_len s"
  shows "erase_measure (back_up s) < erase_measure s"
proof -
  define e where "e = uint (end_ndx s)"
  have e0: "0 \<le> e" by (simp add: e_def)
  have gt: "uint (start_ndx s) < e"
  proof (rule ccontr)
    assume "\<not> uint (start_ndx s) < e"
    then have "uint (end_ndx s) - uint (start_ndx s) \<le> 0" by (simp add: e_def)
    then have "buf_len s \<le> 0" unfolding buf_len_def by (rule smod_int_compares) simp
    with pos show False by simp
  qed
  have d: "dec_ndx e = (e + 126) mod 127"
    using e0 by (simp add: dec_ndx_def smod_int_alt_def sgn_if add.commute)
  have dr: "0 \<le> dec_ndx e" "dec_ndx e < 127" unfolding d by simp_all
  have u: "uint (word_of_int (dec_ndx e) :: 16 word) = dec_ndx e"
    using dr by (simp add: uint_word_of_int)
  have less: "dec_ndx e < e" if "e < 127"
  proof -
    have "e + 126 = (e - 1) + 127" by arith
    then have "(e + 126) mod 127 = (e - 1) mod 127" by (simp only: mod_add_self2)
    also have "\<dots> = e - 1"
    proof (rule mod_pos_pos_trivial)
      show "0 \<le> e - 1" using gt uint_ge_0 [of "start_ndx s"] by linarith
      show "e - 1 < 127" using that by simp
    qed
    finally show ?thesis unfolding d by simp
  qed
  have m: "erase_measure (back_up s) = nat (dec_ndx e)"
    using u dr
    by (simp add: erase_measure_def back_up_def usart_send_blocking_def e_def[symmetric]
        unat_eq_nat_uint)
  show ?thesis
  proof (cases "e < 127")
    case True
    then show ?thesis
      using less dr m e0 by (simp add: erase_measure_def e_def[symmetric] unat_eq_nat_uint)
  next
    case False
    then show ?thesis using dr m by (simp add: erase_measure_def e_def[symmetric])
  qed
qed

termination erase_word
  by (relation "measure erase_measure") (simp_all add: back_up_measure)

termination erase_line
  by (relation "measure erase_measure") (simp_all add: back_up_measure)

declare erase_word.simps [simp del]
declare erase_line.simps [simp del]

text \<open>
  One round of the \<open>while (1)\<close> loop of \<open>get_buffered_line\<close>, for the received character
  \<open>c\<close>: the flag says whether the round ends in \<open>return\<close>.
\<close>

definition line_step :: "byte \<Rightarrow> console \<Rightarrow> bool \<times> console" where
  "line_step c s =
     (if c = 0x0D then
        (let s1 = s\<lparr>buf := (buf s)[unat (end_ndx s) := 0x0A]\<rparr>;
             s2 = s1\<lparr>end_ndx := word_of_int (inc_ndx (uint (end_ndx s1)))\<rparr>;
             s3 = s2\<lparr>buf := (buf s2)[unat (end_ndx s2) := 0x00]\<rparr>
         in (True, usart_send_blocking 0x0A (usart_send_blocking 0x0D s3)))
      else if c = 0x08 \<or> c = 0x7F then
        (if buf_len s = 0 then (False, usart_send_blocking 0x07 s)
         else (False, back_up s))
      else if c = 0x17 then (False, erase_word s)
      else if c = 0x15 then (False, erase_line s)
      else
        (if buf_len s = BUFLEN - 1 then (False, usart_send_blocking 0x07 s)
         else
           (let s1 = s\<lparr>buf := (buf s)[unat (end_ndx s) := c]\<rparr>;
                s2 = s1\<lparr>end_ndx := word_of_int (inc_ndx (uint (end_ndx s1)))\<rparr>
            in (False, usart_send_blocking c s2))))"

text \<open>
  The loop itself: each round receives one byte from the transport. With no byte left
  the receive never returns, and neither does the loop.
\<close>

fun line_loop :: "byte list \<Rightarrow> console \<Rightarrow> (console \<times> byte list) option" where
  "line_loop [] s = None"
| "line_loop (c # rx) s =
     (case line_step c s of
        (True, s') \<Rightarrow> Some (s', rx)
      | (False, s') \<Rightarrow> line_loop rx s')"

definition get_buffered_line :: "byte list \<Rightarrow> console \<Rightarrow> (console \<times> byte list) option" where
  "get_buffered_line rx s =
     (if start_ndx s \<noteq> end_ndx s then Some (s, rx) else line_loop rx s)"

text \<open>
  The console while the loop is under way: \<open>line_steps cs s\<close> is the state after the
  rounds for the received bytes \<open>cs\<close>, up to the round that returns (if one does). With
  no carriage return in \<open>cs\<close> it is the state in which the loop waits for its next byte
  (lemma \<open>line_loop_append\<close> below).
\<close>

fun line_steps :: "byte list \<Rightarrow> console \<Rightarrow> console" where
  "line_steps [] s = s"
| "line_steps (c # cs) s =
     (case line_step c s of
        (True, s') \<Rightarrow> s'
      | (False, s') \<Rightarrow> line_steps cs s')"

section \<open>The stream adapter\<close>

text \<open>
  \<open>_write\<close> (here \<open>sys_write\<close>). The memory at \<open>ptr\<close> is a function from the offset to
  the byte stored there; \<open>i\<close> and \<open>ptr\<close> advance together, so \<open>*ptr\<close> is \<open>ptr i\<close>. The
  loop tests \<open>*ptr\<close> before \<open>i < len\<close>.
\<close>

function write_loop :: "(nat \<Rightarrow> byte) \<Rightarrow> int \<Rightarrow> nat \<Rightarrow> console \<Rightarrow> int \<times> console" where
  "write_loop ptr len i s =
     (if ptr i \<noteq> 0 \<and> int i < len then
        (let s1 = usart_send_blocking (ptr i) s;
             s2 = (if ptr i = 0x0A then usart_send_blocking 0x0D s1 else s1)
         in write_loop ptr len (i + 1) s2)
      else (int i, s))"
  by pat_completeness auto
termination
  by (relation "measure (\<lambda>(ptr, len, i, s). nat (len - int i))") auto

declare write_loop.simps [simp del]

definition sys_write :: "int \<Rightarrow> (nat \<Rightarrow> byte) \<Rightarrow> int \<Rightarrow> console \<Rightarrow> int \<times> console" where
  "sys_write fd ptr len s = (if fd > 2 then (- 1, s) else write_loop ptr len 0 s)"

text \<open>
  \<open>_read\<close> (here \<open>sys_read\<close>). The bytes stored through \<open>*ptr++\<close> are collected in
  \<open>dest\<close>, in the order of the stores. The result is \<open>None\<close> when
  \<open>get_buffered_line\<close> never returns.
\<close>

function read_loop :: "int \<Rightarrow> int \<Rightarrow> byte list \<Rightarrow> console \<Rightarrow> int \<times> byte list \<times> console" where
  "read_loop len my_len dest s =
     (if buf_len s > 0 \<and> len > 0 then
        read_loop (len - 1) (my_len + 1) (dest @ [buf s ! unat (start_ndx s)])
          (s\<lparr>start_ndx := word_of_int (inc_ndx (uint (start_ndx s)))\<rparr>)
      else (my_len, dest, s))"
  by pat_completeness auto
termination
  by (relation "measure (\<lambda>(len, my_len, dest, s). nat len)") auto

declare read_loop.simps [simp del]

definition sys_read ::
  "int \<Rightarrow> int \<Rightarrow> byte list \<Rightarrow> console \<Rightarrow> (int \<times> byte list \<times> console \<times> byte list) option" where
  "sys_read fd len rx s =
     (if fd > 2 then Some (- 1, [], s, rx)
      else
        (case get_buffered_line rx s of
           None \<Rightarrow> None
         | Some (s1, rx1) \<Rightarrow>
             (case read_loop len 0 [] s1 of
                (my_len, dest, s2) \<Rightarrow> Some (my_len, dest, s2, rx1))))"

section \<open>The millisecond counter\<close>

text \<open>
  \<open>system_millis\<close> is a 32-bit counter that the tick interrupt increments. \<open>msleep\<close>
  reads it once for \<open>wake\<close> and once in every test of its loop. The list \<open>ticks\<close> gives,
  for each of these later reads, how many interrupts ran since the read before; when the
  list is used up no interrupt runs any more, and a loop still waiting spins forever
  (\<open>None\<close>). The result is the value of the counter when \<open>msleep\<close> returns.
\<close>

definition sys_tick_handler :: "32 word \<Rightarrow> 32 word" where
  "sys_tick_handler system_millis = system_millis + 1"

fun msleep_loop :: "32 word \<Rightarrow> 32 word \<Rightarrow> nat list \<Rightarrow> 32 word option" where
  "msleep_loop wake system_millis [] =
     (if wake > system_millis then None else Some system_millis)"
| "msleep_loop wake system_millis (t # ticks) =
     (let now = (sys_tick_handler ^^ t) system_millis
      in if wake > now then msleep_loop wake now ticks else Some now)"

definition msleep :: "32 word \<Rightarrow> 32 word \<Rightarrow> nat list \<Rightarrow> 32 word option" where
  "msleep delay system_millis ticks = msleep_loop (system_millis + delay) system_millis ticks"

section \<open>What the specification says \<open>write\<close> sends\<close>

text \<open>
  In the words of the specification: the input bytes up to \<open>max_len\<close> or up to a null
  terminator are consumed, and every newline is followed by a carriage return.
\<close>

definition consumed :: "(nat \<Rightarrow> byte) \<Rightarrow> int \<Rightarrow> byte list" where
  "consumed ptr len = takeWhile (\<lambda>b. b \<noteq> 0) (map ptr [0..<nat len])"

definition lf_to_lfcr :: "byte list \<Rightarrow> byte list" where
  "lf_to_lfcr bs = concat (map (\<lambda>b. if b = 0x0A then [b, 0x0D] else [b]) bs)"

text \<open>
  The bytes that reach the last branch of the loop of \<open>get_buffered_line\<close>: neither
  carriage return nor one of the four editing bytes.
\<close>

definition ordinary :: "byte \<Rightarrow> bool" where
  "ordinary c = (c \<noteq> 0x0D \<and> c \<noteq> 0x08 \<and> c \<noteq> 0x7F \<and> c \<noteq> 0x17 \<and> c \<noteq> 0x15)"

section \<open>Basic facts\<close>

lemma buf_len_empty: "start_ndx s = end_ndx s \<Longrightarrow> buf_len s = 0"
  by (simp add: buf_len_def)

text \<open>Only the carriage return ends the loop.\<close>

lemma line_step_returns_iff: "fst (line_step c s) \<longleftrightarrow> c = 0x0D"
  by (simp add: line_step_def Let_def)

lemma line_loop_append:
  "0x0D \<notin> set cs \<Longrightarrow> line_loop (cs @ rx) s = line_loop rx (line_steps cs s)"
proof (induction cs arbitrary: s)
  case Nil
  then show ?case by simp
next
  case (Cons c cs)
  obtain b t where st: "line_step c s = (b, t)" by (cases "line_step c s")
  from Cons.prems have "c \<noteq> 0x0D" by auto
  with line_step_returns_iff [of c s] st have "\<not> b" by simp
  with st Cons show ?case by simp
qed

text \<open>
  With both indices below \<open>BUFLEN\<close> the remainder in \<open>buf_len\<close> changes nothing: the
  macro is the plain difference of the indices, negative when \<open>end_ndx < start_ndx\<close>.
\<close>

lemma smod_small: "\<bar>x\<bar> < 127 \<Longrightarrow> (x::int) smod 127 = x"
  by (simp add: smod_int_alt_def sgn_if abs_if split: if_splits)

lemma buf_len_wf: "wf s \<Longrightarrow> buf_len s = uint (end_ndx s) - uint (start_ndx s)"
proof -
  assume w: "wf s"
  have "\<bar>uint (end_ndx s) - uint (start_ndx s)\<bar> < 127"
    using w uint_ge_0 [of "end_ndx s"] uint_ge_0 [of "start_ndx s"] unfolding wf_def
    by linarith
  then show ?thesis unfolding buf_len_def by (rule smod_small)
qed

lemma inc_ndx_below: "0 \<le> n \<Longrightarrow> n < 126 \<Longrightarrow> inc_ndx n = n + 1"
  by (simp add: inc_ndx_def smod_small)

lemma inc_ndx_top: "inc_ndx 126 = 0"
  by (simp add: inc_ndx_def smod_int_alt_def)

lemma word_inc_below:
  fixes w :: "16 word"
  assumes "uint w < 126"
  shows "word_of_int (inc_ndx (uint w)) = w + 1" and "uint (w + 1) = uint w + 1"
proof -
  show "word_of_int (inc_ndx (uint w)) = w + 1"
    using assms by (simp add: inc_ndx_below)
  show "uint (w + 1) = uint w + 1"
    using assms by (simp add: uint_word_ariths take_bit_int_eq_self)
qed

lemma ordinary_step:
  assumes "ordinary c"
  shows "line_step c s =
     (if buf_len s = 126 then (False, s\<lparr>tx := tx s @ [0x07]\<rparr>)
      else (False, s\<lparr>buf := (buf s)[unat (end_ndx s) := c],
                     end_ndx := word_of_int (inc_ndx (uint (end_ndx s))),
                     tx := tx s @ [c]\<rparr>))"
  using assms by (simp add: ordinary_def line_step_def usart_send_blocking_def Let_def)

lemma line_steps_ordinary:
  assumes "wf s" and "uint (start_ndx s) \<le> uint (end_ndx s)" and "list_all ordinary cs"
    and "uint (end_ndx s) + int (length cs) \<le> 126"
  shows "line_steps cs s =
     s\<lparr>buf := take (unat (end_ndx s)) (buf s) @ cs @ drop (unat (end_ndx s) + length cs) (buf s),
       end_ndx := end_ndx s + of_nat (length cs),
       tx := tx s @ cs\<rparr>"
  using assms
proof (induction cs arbitrary: s)
  case Nil
  then show ?case by simp
next
  case (Cons c cs)
  let ?e = "end_ndx s"
  let ?s' = "s\<lparr>buf := (buf s)[unat ?e := c], end_ndx := ?e + 1, tx := tx s @ [c]\<rparr>"
  from Cons.prems have e: "uint ?e < 126" by simp
  have bl: "buf_len s = uint ?e - uint (start_ndx s)" using Cons.prems(1) by (rule buf_len_wf)
  have "buf_len s \<noteq> 126" using bl e uint_ge_0 [of "start_ndx s"] by linarith
  moreover have "ordinary c" using Cons.prems(3) by simp
  ultimately have step: "line_step c s = (False, ?s')"
    using word_inc_below(1) [OF e] by (simp add: ordinary_step)
  have ue: "uint (?e + 1) = uint ?e + 1" using e by (rule word_inc_below(2))
  have une: "unat (?e + 1) = Suc (unat ?e)"
  proof -
    have "unat (?e + 1) = nat (uint ?e + 1)" by (simp only: unat_eq_nat_uint ue)
    also have "\<dots> = Suc (nat (uint ?e))" using uint_ge_0 [of ?e] by linarith
    finally show ?thesis by (simp only: unat_eq_nat_uint)
  qed
  have "unat ?e = nat (uint ?e)" by (simp only: unat_eq_nat_uint)
  then have "unat ?e < 128" using e by linarith
  then have len: "unat ?e < length (buf s)" using Cons.prems(1) by (simp add: wf_def)
  have w': "wf ?s'" using Cons.prems(1) ue e by (simp add: wf_def)
  have le': "uint (start_ndx ?s') \<le> uint (end_ndx ?s')" using Cons.prems(2) ue by simp
  have all': "list_all ordinary cs" using Cons.prems(3) by simp
  have room': "uint (end_ndx ?s') + int (length cs) \<le> 126" using Cons.prems(4) ue by simp
  have tk: "take (Suc (unat ?e)) ((buf s)[unat ?e := c]) = take (unat ?e) (buf s) @ [c]"
    using len by (simp add: take_Suc_conv_app_nth)
  have dr: "drop (Suc (unat ?e) + length cs) ((buf s)[unat ?e := c])
            = drop (Suc (unat ?e) + length cs) (buf s)"
    by simp
  have "line_steps (c # cs) s = line_steps cs ?s'" by (simp add: step)
  also have "\<dots> = ?s'\<lparr>buf := take (unat (end_ndx ?s')) (buf ?s') @ cs
                              @ drop (unat (end_ndx ?s') + length cs) (buf ?s'),
                       end_ndx := end_ndx ?s' + of_nat (length cs),
                       tx := tx ?s' @ cs\<rparr>"
    by (rule Cons.IH [OF w' le' all' room'])
  also have "\<dots> = s\<lparr>buf := take (unat ?e) (buf s) @ (c # cs)
                             @ drop (unat ?e + length (c # cs)) (buf s),
                      end_ndx := ?e + of_nat (length (c # cs)),
                      tx := tx s @ (c # cs)\<rparr>"
    using tk dr by (simp add: une)
  finally show ?case .
qed


section \<open>The buffer while the indices have not wrapped\<close>

text \<open>
  As long as \<open>start_ndx \<le> end_ndx\<close>, the loop of \<open>_read\<close> copies the bytes between the
  two indices, oldest first, up to \<open>len\<close> of them; and ordinary bytes entered into an
  empty buffer without \<open>end_ndx\<close> passing index 126 come back in the order of entry.
\<close>

lemma read_loop_drain:
  assumes "wf s" and "uint (start_ndx s) \<le> uint (end_ndx s)"
  shows "read_loop len my_len dest s =
     (my_len + min (max len 0) (uint (end_ndx s) - uint (start_ndx s)),
      dest @ take (nat (min (max len 0) (uint (end_ndx s) - uint (start_ndx s))))
                  (drop (unat (start_ndx s)) (buf s)),
      s\<lparr>start_ndx := start_ndx s
            + word_of_int (min (max len 0) (uint (end_ndx s) - uint (start_ndx s)))\<rparr>)"
  using assms
proof (induction len my_len dest s rule: read_loop.induct)
  case (1 len my_len dest s)
  let ?st = "start_ndx s"
  let ?d = "uint (end_ndx s) - uint ?st"
  have bl: "buf_len s = ?d" using "1.prems"(1) by (rule buf_len_wf)
  show ?case
  proof (cases "buf_len s > 0 \<and> len > 0")
    case False
    then have "min (max len 0) ?d = 0" using bl "1.prems"(2) by auto
    with False show ?thesis by (subst read_loop.simps) auto
  next
    case True
    let ?s' = "s\<lparr>start_ndx := ?st + 1\<rparr>"
    have e: "uint (end_ndx s) < 127" using "1.prems"(1) by (simp add: wf_def)
    have lt: "uint ?st < 126" using True bl e by linarith
    have inc: "word_of_int (inc_ndx (uint ?st)) = ?st + 1" using lt by (rule word_inc_below(1))
    have ust: "uint (?st + 1) = uint ?st + 1" using lt by (rule word_inc_below(2))
    have unat_st: "unat ?st = nat (uint ?st)" by (simp only: unat_eq_nat_uint)
    have unat_st': "unat (?st + 1) = Suc (unat ?st)"
    proof -
      have "unat (?st + 1) = nat (uint ?st + 1)" by (simp only: unat_eq_nat_uint ust)
      also have "\<dots> = Suc (nat (uint ?st))" using uint_ge_0 [of ?st] by linarith
      finally show ?thesis by (simp only: unat_st)
    qed
    have "unat ?st < 128" using lt unat_st by linarith
    then have len: "unat ?st < length (buf s)" using "1.prems"(1) by (simp add: wf_def)
    have w': "wf ?s'" using "1.prems"(1) ust lt by (simp add: wf_def)
    have le': "uint (start_ndx ?s') \<le> uint (end_ndx ?s')" using True bl ust by simp
    have m: "min (max len 0) ?d = 1 + min (max (len - 1) 0) (?d - 1)"
      using True bl by auto
    have m0: "0 \<le> min (max (len - 1) 0) (?d - 1)" using True bl by auto
    have nm: "nat (min (max len 0) ?d) = Suc (nat (min (max (len - 1) 0) (?d - 1)))"
      unfolding m using m0 by linarith
    have dr: "drop (unat ?st) (buf s) = buf s ! unat ?st # drop (Suc (unat ?st)) (buf s)"
      using len by (simp add: Cons_nth_drop_Suc)
    have d': "uint (end_ndx ?s') - uint (start_ndx ?s') = ?d - 1" using ust by simp
    have "read_loop len my_len dest s =
          read_loop (len - 1) (my_len + 1) (dest @ [buf s ! unat ?st]) ?s'"
      using True inc by (subst read_loop.simps) simp
    also have "\<dots> =
       (my_len + 1 + min (max (len - 1) 0) (?d - 1),
        (dest @ [buf s ! unat ?st]) @ take (nat (min (max (len - 1) 0) (?d - 1)))
                  (drop (unat (start_ndx ?s')) (buf ?s')),
        ?s'\<lparr>start_ndx := start_ndx ?s' + word_of_int (min (max (len - 1) 0) (?d - 1))\<rparr>)"
      using "1.IH" [OF True, unfolded inc, OF w' le'] unfolding d' .
    also have "\<dots> =
       (my_len + min (max len 0) ?d,
        dest @ take (nat (min (max len 0) ?d)) (drop (unat ?st) (buf s)),
        s\<lparr>start_ndx := ?st + word_of_int (min (max len 0) ?d)\<rparr>)"
    proof -
      have tk: "take (Suc k) (drop (unat ?st) (buf s))
                = buf s ! unat ?st # take k (drop (Suc (unat ?st)) (buf s))" for k
        by (subst dr) simp
      show ?thesis unfolding nm unfolding m by (simp add: tk unat_st')
    qed
    finally show ?thesis .
  qed
qed


lemma uint_add_of_nat:
  fixes w :: "16 word"
  assumes "uint w + int n < 127"
  shows "uint (w + of_nat n) = uint w + int n"
proof -
  have n: "int n < 127" using assms uint_ge_0 [of w] by linarith
  have "uint (of_nat n :: 16 word) = int n"
  proof -
    have "n < 2 ^ 16" using n by simp
    then have "take_bit 16 n = n" by (rule take_bit_nat_eq_self)
    then show ?thesis by (simp add: unsigned_of_nat)
  qed
  moreover have "uint w + int n < 2 ^ 16" using assms by simp
  ultimately show ?thesis
    using uint_ge_0 [of w] by (simp add: uint_word_ariths take_bit_int_eq_self)
qed

lemma fifo_without_wrap:
  assumes w: "wf s" and z: "start_ndx s = end_ndx s" and o: "list_all ordinary cs"
    and room: "uint (end_ndx s) + int (length cs) \<le> 126"
  shows "buf_len (line_steps cs s) = int (length cs)"
    and "read_loop (int (length cs)) 0 [] (line_steps cs s) =
           (int (length cs), cs, (line_steps cs s)\<lparr>start_ndx := end_ndx (line_steps cs s)\<rparr>)"
proof -
  let ?e = "end_ndx s"
  let ?n = "length cs"
  let ?t = "s\<lparr>buf := take (unat ?e) (buf s) @ cs @ drop (unat ?e + ?n) (buf s),
              end_ndx := ?e + of_nat ?n, tx := tx s @ cs\<rparr>"
  have le: "uint (start_ndx s) \<le> uint ?e" using z by simp
  have eq: "line_steps cs s = ?t" using w le o room by (rule line_steps_ordinary)
  have ue: "uint (?e + of_nat ?n) = uint ?e + int ?n"
    using room by (intro uint_add_of_nat) simp
  have unat_e: "unat ?e = nat (uint ?e)" by (simp only: unat_eq_nat_uint)
  have en: "unat ?e + ?n \<le> 126" using room uint_ge_0 [of ?e] unat_e by linarith
  have lb: "length (buf s) = 128" using w by (simp add: wf_def)
  have wt: "wf ?t" using w ue room en lb by (simp add: wf_def)
  have let': "uint (start_ndx ?t) \<le> uint (end_ndx ?t)" using z ue by simp
  have d: "uint (end_ndx ?t) - uint (start_ndx ?t) = int ?n" using z ue by simp
  show "buf_len (line_steps cs s) = int ?n"
    unfolding eq using buf_len_wf [OF wt] d by simp
  have tk: "take ?n (drop (unat (start_ndx ?t)) (buf ?t)) = cs"
    using z en lb by simp
  have fin: "start_ndx ?t + word_of_int (int ?n) = end_ndx ?t" using z by simp
  have "read_loop (int ?n) 0 [] ?t =
      (0 + min (max (int ?n) 0) (uint (end_ndx ?t) - uint (start_ndx ?t)),
       [] @ take (nat (min (max (int ?n) 0) (uint (end_ndx ?t) - uint (start_ndx ?t))))
                  (drop (unat (start_ndx ?t)) (buf ?t)),
       ?t\<lparr>start_ndx := start_ndx ?t
            + word_of_int (min (max (int ?n) 0) (uint (end_ndx ?t) - uint (start_ndx ?t)))\<rparr>)"
    using wt let' by (rule read_loop_drain)
  also have "\<dots> = (int ?n, cs, ?t\<lparr>start_ndx := end_ndx ?t\<rparr>)"
    unfolding d using tk fin by simp
  finally show "read_loop (int ?n) 0 [] (line_steps cs s) =
           (int ?n, cs, (line_steps cs s)\<lparr>start_ndx := end_ndx (line_steps cs s)\<rparr>)"
    unfolding eq .
qed

section \<open>The indices stay in range\<close>

text \<open>
  \<open>wf\<close> holds initially and every operation keeps it, so no access to \<open>buf\<close> in a
  state the program can reach is out of range.
\<close>

lemma wf_init: "wf init"
  by (simp add: wf_def init_def)

lemma uint_stored_ndx:
  assumes "0 \<le> n" and "n < 127"
  shows "uint (word_of_int n :: 16 word) = n"
  using assms by (simp add: uint_word_of_int)

lemma dec_ndx_range: "0 \<le> n \<Longrightarrow> 0 \<le> dec_ndx n \<and> dec_ndx n < BUFLEN"
  by (simp add: dec_ndx_def smod_int_compares)

lemma inc_ndx_range: "0 \<le> n \<Longrightarrow> 0 \<le> inc_ndx n \<and> inc_ndx n < BUFLEN"
  by (simp add: inc_ndx_def smod_int_compares)

lemma uint_inc_ndx_bound: "uint (word_of_int (inc_ndx (uint w)) :: 16 word) < 127"
proof -
  have r: "0 \<le> inc_ndx (uint w) \<and> inc_ndx (uint w) < 127"
    by (rule inc_ndx_range) simp
  then show ?thesis by (simp add: uint_stored_ndx)
qed

lemma uint_dec_ndx_bound: "uint (word_of_int (dec_ndx (uint w)) :: 16 word) < 127"
proof -
  have r: "0 \<le> dec_ndx (uint w) \<and> dec_ndx (uint w) < 127"
    by (rule dec_ndx_range) simp
  then show ?thesis by (simp add: uint_stored_ndx)
qed

lemma wf_back_up: "wf s \<Longrightarrow> wf (back_up s)"
  by (simp add: wf_def back_up_def usart_send_blocking_def uint_dec_ndx_bound)

lemma wf_erase_word: "wf s \<Longrightarrow> wf (erase_word s)"
proof (induction s rule: erase_word.induct)
  case (1 s)
  show ?case
  proof (cases "buf_len s > 0 \<and> \<not> isspace (buf s ! unat (end_ndx s))")
    case True
    with 1 show ?thesis by (subst erase_word.simps) (simp add: wf_back_up)
  next
    case False
    with 1 show ?thesis by (subst erase_word.simps) auto
  qed
qed

lemma wf_erase_line: "wf s \<Longrightarrow> wf (erase_line s)"
proof (induction s rule: erase_line.induct)
  case (1 s)
  show ?case
  proof (cases "buf_len s > 0")
    case True
    with 1 show ?thesis by (subst erase_line.simps) (simp add: wf_back_up)
  next
    case False
    with 1 show ?thesis by (subst erase_line.simps) simp
  qed
qed

lemma wf_line_step: "wf s \<Longrightarrow> wf (snd (line_step c s))"
  by (simp add: line_step_def Let_def wf_erase_word wf_erase_line wf_back_up)
     (simp add: wf_def usart_send_blocking_def uint_inc_ndx_bound)

lemma wf_line_loop: "wf s \<Longrightarrow> line_loop rx s = Some (s', rx') \<Longrightarrow> wf s'"
proof (induction rx arbitrary: s)
  case Nil
  then show ?case by simp
next
  case (Cons c rx)
  obtain b t where st: "line_step c s = (b, t)" by (cases "line_step c s")
  have wt: "wf t" using wf_line_step [OF Cons.prems(1), of c] st by simp
  show ?case
  proof (cases b)
    case True
    with Cons.prems(2) st wt show ?thesis by simp
  next
    case False
    with Cons.prems(2) st have "line_loop rx t = Some (s', rx')" by simp
    with wt show ?thesis by (rule Cons.IH)
  qed
qed

lemma wf_get_buffered_line: "wf s \<Longrightarrow> get_buffered_line rx s = Some (s', rx') \<Longrightarrow> wf s'"
  by (auto simp: get_buffered_line_def wf_line_loop split: if_splits)

lemma wf_read_loop: "wf s \<Longrightarrow> wf (snd (snd (read_loop len my_len dest s)))"
proof (induction len my_len dest s rule: read_loop.induct)
  case (1 len my_len dest s)
  show ?case
  proof (cases "buf_len s > 0 \<and> len > 0")
    case True
    have "wf (s\<lparr>start_ndx := word_of_int (inc_ndx (uint (start_ndx s)))\<rparr>)"
      using "1.prems" by (simp add: wf_def uint_inc_ndx_bound)
    with True "1.IH" show ?thesis by (subst read_loop.simps) simp
  next
    case False
    with "1.prems" show ?thesis by (subst read_loop.simps) auto
  qed
qed

lemma wf_sys_read: "wf s \<Longrightarrow> sys_read fd len rx s = Some (n, dest, s', rx') \<Longrightarrow> wf s'"
proof -
  assume w: "wf s" and r: "sys_read fd len rx s = Some (n, dest, s', rx')"
  show ?thesis
  proof (cases "fd > 2")
    case True
    with r w show ?thesis by (simp add: sys_read_def)
  next
    case False
    with r obtain s1 rx1 where g: "get_buffered_line rx s = Some (s1, rx1)"
      by (auto simp: sys_read_def split: option.splits)
    have w1: "wf s1" using w g by (rule wf_get_buffered_line)
    from r False g have "s' = snd (snd (read_loop len 0 [] s1))"
      by (auto simp: sys_read_def split: prod.splits)
    with wf_read_loop [OF w1] show ?thesis by simp
  qed
qed

section \<open>An undrained line blocks the editor\<close>

text \<open>
  C6. Whenever \<open>start_ndx \<noteq> end_ndx\<close>, \<open>get_buffered_line\<close> returns at once: it
  receives nothing (\<open>rx\<close> is handed back whole), sends nothing and leaves \<open>buf\<close> and both
  indices as they were (the console is unchanged), and so does a second call.
\<close>

theorem get_buffered_line_undrained_noop:
  assumes "start_ndx s \<noteq> end_ndx s"
  shows "get_buffered_line rx s = Some (s, rx) \<and>
         Option.bind (get_buffered_line rx s) (\<lambda>(s', rx'). get_buffered_line rx' s')
           = Some (s, rx)"
  using assms by (simp add: get_buffered_line_def)

theorem get_buffered_line_undrained_noop_witness:
  "start_ndx (init\<lparr>end_ndx := 3\<rparr>) \<noteq> end_ndx (init\<lparr>end_ndx := 3\<rparr>) \<and>
   get_buffered_line [0x41, 0x0D] (init\<lparr>end_ndx := 3\<rparr>)
     = Some (init\<lparr>end_ndx := 3\<rparr>, [0x41, 0x0D])"
proof -
  have h: "start_ndx (init\<lparr>end_ndx := 3\<rparr>) \<noteq> end_ndx (init\<lparr>end_ndx := 3\<rparr>)"
    by (simp add: init_def)
  from get_buffered_line_undrained_noop [OF h, of "[0x41, 0x0D]"] h show ?thesis by simp
qed

section \<open>Erasing on an empty buffer\<close>

text \<open>
  C10. On an empty buffer (\<open>start_ndx = end_ndx\<close>) the bytes \<open>0x17\<close> (erase word) and
  \<open>0x15\<close> (erase line) change nothing at all: no byte is sent and the console is the
  same, so the editor goes on as if the byte had not arrived. The erase-character bytes
  \<open>0x08\<close> and \<open>0x7F\<close> send the alert byte \<open>0x07\<close>.
\<close>

theorem erase_word_line_silent_on_empty:
  assumes "start_ndx s = end_ndx s"
  shows "line_step 0x17 s = (False, s) \<and>
         line_step 0x15 s = (False, s) \<and>
         line_step 0x08 s = (False, s\<lparr>tx := tx s @ [0x07]\<rparr>) \<and>
         line_step 0x7F s = (False, s\<lparr>tx := tx s @ [0x07]\<rparr>) \<and>
         get_buffered_line (0x17 # rx) s = get_buffered_line rx s \<and>
         get_buffered_line (0x15 # rx) s = get_buffered_line rx s"
proof -
  have z: "buf_len s = 0" using assms by (rule buf_len_empty)
  have w: "erase_word s = s" by (subst erase_word.simps) (simp add: z)
  have l: "erase_line s = s" by (subst erase_line.simps) (simp add: z)
  show ?thesis
    using assms by (simp add: line_step_def w l z usart_send_blocking_def get_buffered_line_def)
qed

theorem erase_word_line_silent_on_empty_witness:
  "start_ndx init = end_ndx init \<and> line_step 0x17 init = (False, init) \<and>
   line_step 0x15 init = (False, init) \<and> tx (snd (line_step 0x08 init)) = [0x07]"
proof -
  have h: "start_ndx init = end_ndx init" by (simp add: init_def)
  from erase_word_line_silent_on_empty [OF h] h show ?thesis by (simp add: init_def)
qed

section \<open>Writing\<close>

lemma write_loop_eq:
  "write_loop ptr len i s =
     (int (i + length (takeWhile (\<lambda>b. b \<noteq> 0) (map ptr [i..<nat len]))),
      s\<lparr>tx := tx s @ lf_to_lfcr (takeWhile (\<lambda>b. b \<noteq> 0) (map ptr [i..<nat len]))\<rparr>)"
proof (induction ptr len i s rule: write_loop.induct)
  case (1 ptr len i s)
  show ?case
  proof (cases "ptr i \<noteq> 0 \<and> int i < len")
    case True
    then have lt: "i < nat len" by linarith
    have u: "[i..<nat len] = i # [Suc i..<nat len]" using lt by (rule upt_conv_Cons)
    show ?thesis
      using True "1.IH" [OF True refl refl]
      by (subst write_loop.simps)
         (cases "ptr i = 0x0A"; simp add: u lf_to_lfcr_def usart_send_blocking_def)
  next
    case False
    show ?thesis
    proof (cases "int i < len")
      case True
      then have lt: "i < nat len" by linarith
      have u: "[i..<nat len] = i # [Suc i..<nat len]" using lt by (rule upt_conv_Cons)
      from True False have "ptr i = 0" by simp
      then show ?thesis
        by (subst write_loop.simps) (simp add: u lf_to_lfcr_def)
    next
      case False
      then have "[i..<nat len] = []" by simp
      with False show ?thesis
        by (subst write_loop.simps) (simp add: lf_to_lfcr_def)
    qed
  qed
qed

lemma wf_sys_write: "wf s \<Longrightarrow> wf (snd (sys_write fd ptr len s))"
  by (simp add: sys_write_def write_loop_eq wf_def)

text \<open>
  C7. For every \<open>fd\<close> from 0 to 2, \<open>_write\<close> consumes the source bytes up to \<open>len\<close> or
  up to the first NUL, sends each of them, sends a carriage return right after each
  newline, and returns the number of source bytes consumed. The witness is the case of
  the claim: on \<open>A \n B\<close> with \<open>len = 3\<close> it sends \<open>A \n \r B\<close> and returns 3.
\<close>

theorem sys_write_normalises:
  assumes "0 \<le> fd" and "fd \<le> 2"
  shows "sys_write fd ptr len s =
           (int (length (consumed ptr len)), s\<lparr>tx := tx s @ lf_to_lfcr (consumed ptr len)\<rparr>)"
  using assms by (simp add: sys_write_def write_loop_eq consumed_def)

theorem sys_write_normalises_witness:
  "(0::int) \<le> 1 \<and> (1::int) \<le> 2 \<and>
   sys_write 1 ((!) [0x41, 0x0A, 0x42, 0x00]) 3 init
     = (3, init\<lparr>tx := [0x41, 0x0A, 0x0D, 0x42]\<rparr>)"
proof -
  have a: "(0::int) \<le> 1" and b: "(1::int) \<le> 2" by simp_all
  have c: "consumed ((!) [0x41, 0x0A, 0x42, 0x00]) 3 = [0x41, 0x0A, 0x42]"
    by code_simp
  have d: "lf_to_lfcr [0x41, 0x0A, 0x42] = [0x41, 0x0A, 0x0D, 0x42]"
    by (simp add: lf_to_lfcr_def)
  have e: "tx init = []" by (simp add: init_def)
  from sys_write_normalises [OF a b, of "(!) [0x41, 0x0A, 0x42, 0x00]" 3 init]
  show ?thesis by (simp add: c d e)
qed

section \<open>File identifiers\<close>

text \<open>
  C8, as the claim states it, fails: the only test is \<open>fd > 2\<close>, so a negative
  identifier is served like a standard stream. \<open>_write\<close> on \<open>fd = -1\<close> sends the byte and
  returns 1, and \<open>_read\<close> on \<open>fd = -1\<close> receives and buffers a line and returns its 2
  bytes.
\<close>

theorem unsupported_fd_counterexample:
  "sys_write (- 1) ((!) [0x41, 0x00]) 1 init = (1, init\<lparr>tx := [0x41]\<rparr>) \<and>
   sys_read (- 1) 10 [0x61, 0x0D] init =
     Some (2, [0x61, 0x0A],
       \<lparr>start_ndx = 2, end_ndx = 2, buf = [0x61, 0x0A] @ replicate 126 0x00,
        tx = [0x61, 0x0D, 0x0A]\<rparr>, [])"
  by code_simp

text \<open>
  C8, amended. For every \<open>fd\<close> greater than 2, \<open>_read\<close> and \<open>_write\<close> return \<open>-1\<close>,
  receive nothing, send nothing and leave the buffer and its indices unchanged.
\<close>

theorem fd_above_2_rejected:
  assumes "2 < fd"
  shows "sys_write fd ptr len s = (- 1, s) \<and> sys_read fd len rx s = Some (- 1, [], s, rx)"
  using assms by (simp add: sys_write_def sys_read_def)

theorem fd_above_2_rejected_witness:
  "(2::int) < 3 \<and> sys_write 3 ((!) [0x41, 0x00]) 1 init = (- 1, init) \<and>
   sys_read 3 10 [0x61, 0x0D] init = Some (- 1, [], init, [0x61, 0x0D])"
proof -
  have h: "(2::int) < 3" by simp
  from fd_above_2_rejected [OF h] show ?thesis by simp
qed

section \<open>The capacity test for ordinary bytes\<close>

text \<open>
  C3. The claim has an ordinary byte discarded, with one alert, once the occupancy is
  \<open>BUFLEN - 2\<close>, so that a slot remains for the terminator. The test in the code is
  \<open>buf_len == BUFLEN - 1\<close>. From the initial state, after 125 ordinary bytes the
  occupancy is \<open>BUFLEN - 2\<close> and the 126th byte is stored and echoed; no alert is sent.
  The carriage return that ends this line of 126 bytes stores the newline in the last
  slot, \<open>end_ndx\<close> wraps onto \<open>start_ndx\<close>, the end-of-string marker overwrites the first
  character, and \<open>_read\<close> returns 0 bytes: the whole line is lost.
\<close>

theorem capacity_guard_leaves_no_terminator_slot:
  "buf_len (line_steps (replicate 125 0x78) init) = BUFLEN - 2 \<and>
   line_step 0x78 (line_steps (replicate 125 0x78) init) =
     (False, \<lparr>start_ndx = 0, end_ndx = 126, buf = replicate 126 0x78 @ [0x00, 0x00],
              tx = replicate 126 0x78\<rparr>) \<and>
   sys_read 0 200 (replicate 126 0x78 @ [0x0D]) init =
     Some (0, [],
       \<lparr>start_ndx = 0, end_ndx = 0,
        buf = [0x00] @ replicate 125 0x78 @ [0x0A, 0x00],
        tx = replicate 126 0x78 @ [0x0D, 0x0A]\<rparr>, [])"
  by code_simp

section \<open>Reading a line back\<close>

text \<open>
  C5, as the claim states it, fails: after the editor has consumed \<open>h i \r\<close>, the call
  \<open>_read(dest, 10)\<close> returns 3, not 2: it yields \<open>h\<close>, \<open>i\<close> and the newline together
  and leaves nothing behind for a second call.
\<close>

theorem read_hi_counterexample:
  "get_buffered_line [0x68, 0x69, 0x0D] init =
     Some (\<lparr>start_ndx = 0, end_ndx = 3, buf = [0x68, 0x69, 0x0A] @ replicate 125 0x00,
            tx = [0x68, 0x69, 0x0D, 0x0A]\<rparr>, []) \<and>
   sys_read 0 10 []
       \<lparr>start_ndx = 0, end_ndx = 3, buf = [0x68, 0x69, 0x0A] @ replicate 125 0x00,
        tx = [0x68, 0x69, 0x0D, 0x0A]\<rparr> =
     Some (3, [0x68, 0x69, 0x0A],
       \<lparr>start_ndx = 3, end_ndx = 3, buf = [0x68, 0x69, 0x0A] @ replicate 125 0x00,
        tx = [0x68, 0x69, 0x0D, 0x0A]\<rparr>, [])"
  by code_simp

lemma take3_drop:
  assumes "k + 3 \<le> length xs"
  shows "take 3 (drop k xs) = [xs ! k, xs ! (k + 1), xs ! (k + 2)]"
proof -
  have a: "drop k xs = xs ! k # drop (Suc k) xs"
    using assms by (simp add: Cons_nth_drop_Suc)
  have b: "drop (Suc k) xs = xs ! Suc k # drop (Suc (Suc k)) xs"
    using assms by (simp add: Cons_nth_drop_Suc)
  have c: "drop (Suc (Suc k)) xs = xs ! Suc (Suc k) # drop (Suc (Suc (Suc k))) xs"
    using assms by (simp add: Cons_nth_drop_Suc)
  have "take 3 (drop k xs) = take (Suc (Suc (Suc 0))) (drop k xs)"
    by (simp only: numeral_3_eq_3)
  also have "\<dots> = [xs ! k, xs ! Suc k, xs ! Suc (Suc k)]"
    by (subst a, subst b, subst c) simp
  finally show ?thesis by simp
qed

text \<open>
  C5, amended. Take any empty buffer whose index is at most 123 (\<open>start_ndx = end_ndx\<close>,
  so that the line does not wrap), whatever \<open>buf\<close> holds and whatever was sent before.
  \<open>get_buffered_line\<close> consumes \<open>h i \r\<close> and the transport sees the echo
  \<open>h i \r \n\<close>; the call \<open>_read(dest, 10)\<close> then yields exactly the 3 bytes \<open>h i \n\<close>
  and leaves the buffer drained. A further \<open>_read\<close> with no new input does not return:
  it waits in \<open>get_buffered_line\<close> for the next line.
\<close>

theorem read_hi_line:
  assumes w: "wf s" and z: "start_ndx s = end_ndx s" and r: "uint (end_ndx s) \<le> 123"
  shows
    "let k = unat (end_ndx s);
         s1 = s\<lparr>buf := (buf s)[k := 0x68, k + 1 := 0x69, k + 2 := 0x0A, k + 3 := 0x00],
                end_ndx := end_ndx s + 3,
                tx := tx s @ [0x68, 0x69, 0x0D, 0x0A]\<rparr>;
         s2 = s1\<lparr>start_ndx := end_ndx s + 3\<rparr>
     in get_buffered_line (0x68 # 0x69 # 0x0D # rx) s = Some (s1, rx) \<and>
        sys_read 0 10 rx' s1 = Some (3, [0x68, 0x69, 0x0A], s2, rx') \<and>
        start_ndx s2 = end_ndx s2 \<and>
        sys_read 0 10 [] s2 = None"
proof -
  let ?e = "end_ndx s"
  let ?k = "unat ?e"
  let ?sa = "s\<lparr>buf := (buf s)[?k := 0x68], end_ndx := ?e + 1, tx := tx s @ [0x68]\<rparr>"
  let ?sb = "s\<lparr>buf := (buf s)[?k := 0x68, ?k + 1 := 0x69], end_ndx := ?e + 2,
               tx := tx s @ [0x68, 0x69]\<rparr>"
  let ?s1 = "s\<lparr>buf := (buf s)[?k := 0x68, ?k + 1 := 0x69, ?k + 2 := 0x0A, ?k + 3 := 0x00],
               end_ndx := ?e + 3, tx := tx s @ [0x68, 0x69, 0x0D, 0x0A]\<rparr>"
  let ?s2 = "?s1\<lparr>start_ndx := ?e + 3\<rparr>"
  have u1: "uint (?e + 1) = uint ?e + 1"
    using uint_add_of_nat [of ?e 1] r by simp
  have u2: "uint (?e + 2) = uint ?e + 2"
    using uint_add_of_nat [of ?e 2] r by simp
  have u3: "uint (?e + 3) = uint ?e + 3"
    using uint_add_of_nat [of ?e 3] r by simp
  have k: "?k = nat (uint ?e)" by (simp only: unat_eq_nat_uint)
  have k123: "?k \<le> 123" using k r by linarith
  have n1: "unat (?e + 1) = ?k + 1"
  proof -
    have "unat (?e + 1) = nat (uint ?e + 1)" by (simp only: unat_eq_nat_uint u1)
    then show ?thesis using k uint_ge_0 [of ?e] by linarith
  qed
  have n2: "unat (?e + 2) = ?k + 2"
  proof -
    have "unat (?e + 2) = nat (uint ?e + 2)" by (simp only: unat_eq_nat_uint u2)
    then show ?thesis using k uint_ge_0 [of ?e] by linarith
  qed
  have n3: "unat (?e + 3) = ?k + 3"
  proof -
    have "unat (?e + 3) = nat (uint ?e + 3)" by (simp only: unat_eq_nat_uint u3)
    then show ?thesis using k uint_ge_0 [of ?e] by linarith
  qed
  have lb: "length (buf s) = 128" using w by (simp add: wf_def)
  have oh: "ordinary 0x68" and oi: "ordinary 0x69" by (simp_all add: ordinary_def)
  have i1: "word_of_int (inc_ndx (uint ?e)) = ?e + 1"
    using r by (intro word_inc_below(1)) simp
  have i2: "word_of_int (inc_ndx (uint (?e + 1))) = ?e + 2"
    using word_inc_below(1) [of "?e + 1"] u1 r by simp
  have i3: "word_of_int (inc_ndx (uint (?e + 2))) = ?e + 3"
    using word_inc_below(1) [of "?e + 2"] u2 r by simp
  have bl0: "buf_len s = 0" using z by (rule buf_len_empty)
  have bla: "buf_len ?sa = 1" using z u1 by (simp add: buf_len_def smod_small)
  have stA: "line_step 0x68 s = (False, ?sa)"
    using bl0 i1 by (simp add: ordinary_step [OF oh])
  have stB: "line_step 0x69 ?sa = (False, ?sb)"
    using bla i2 n1 by (simp add: ordinary_step [OF oi])
  have stC: "line_step 0x0D ?sb = (True, ?s1)"
    using i3 n2 n3 by (simp add: line_step_def Let_def usart_send_blocking_def)
  have g: "get_buffered_line (0x68 # 0x69 # 0x0D # rx) s = Some (?s1, rx)"
    using z stA stB stC by (simp add: get_buffered_line_def)
  have ne: "start_ndx ?s1 \<noteq> end_ndx ?s1"
  proof
    assume "start_ndx ?s1 = end_ndx ?s1"
    then have "uint ?e = uint (?e + 3)" using z by simp
    with u3 show False by simp
  qed
  have w1: "wf ?s1" using w u3 r by (simp add: wf_def)
  have le1: "uint (start_ndx ?s1) \<le> uint (end_ndx ?s1)" using z u3 by simp
  have d1: "uint (end_ndx ?s1) - uint (start_ndx ?s1) = 3" using z u3 by simp
  have sk: "unat (start_ndx ?s1) = ?k" using z by simp
  have tk: "take 3 (drop ?k (buf ?s1)) = [0x68, 0x69, 0x0A]"
    using k123 lb by (subst take3_drop) simp_all
  have rl: "read_loop 10 0 [] ?s1 = (3, [0x68, 0x69, 0x0A], ?s2)"
    using read_loop_drain [OF w1 le1, of 10 0 "[]"] unfolding d1 sk using tk z by simp
  have rd: "sys_read 0 10 rx' ?s1 = Some (3, [0x68, 0x69, 0x0A], ?s2, rx')"
    using ne rl by (simp add: sys_read_def get_buffered_line_def)
  have e2: "start_ndx ?s2 = end_ndx ?s2" by simp
  have bk: "sys_read 0 10 [] ?s2 = None"
    by (simp add: sys_read_def get_buffered_line_def)
  from g rd e2 bk show ?thesis by (simp only: Let_def)
qed

theorem read_hi_line_witness:
  "wf init \<and> start_ndx init = end_ndx init \<and> uint (end_ndx init) \<le> 123 \<and>
   get_buffered_line [0x68, 0x69, 0x0D] init =
     Some (\<lparr>start_ndx = 0, end_ndx = 3, buf = [0x68, 0x69, 0x0A] @ replicate 125 0x00,
            tx = [0x68, 0x69, 0x0D, 0x0A]\<rparr>, []) \<and>
   sys_read 0 10 []
       \<lparr>start_ndx = 0, end_ndx = 3, buf = [0x68, 0x69, 0x0A] @ replicate 125 0x00,
        tx = [0x68, 0x69, 0x0D, 0x0A]\<rparr> =
     Some (3, [0x68, 0x69, 0x0A],
       \<lparr>start_ndx = 3, end_ndx = 3, buf = [0x68, 0x69, 0x0A] @ replicate 125 0x00,
        tx = [0x68, 0x69, 0x0D, 0x0A]\<rparr>, []) \<and>
   sys_read 0 10 []
       \<lparr>start_ndx = 3, end_ndx = 3, buf = [0x68, 0x69, 0x0A] @ replicate 125 0x00,
        tx = [0x68, 0x69, 0x0D, 0x0A]\<rparr> = None"
proof -
  have h1: "wf init" by (rule wf_init)
  have h2: "start_ndx init = end_ndx init" by (simp add: init_def)
  have h3: "uint (end_ndx init) \<le> 123" by (simp add: init_def)
  have e1: "init\<lparr>buf := (buf init)[unat (end_ndx init) := 0x68,
                unat (end_ndx init) + 1 := 0x69, unat (end_ndx init) + 2 := 0x0A,
                unat (end_ndx init) + 3 := 0x00],
              end_ndx := end_ndx init + 3,
              tx := tx init @ [0x68, 0x69, 0x0D, 0x0A]\<rparr>
            = \<lparr>start_ndx = 0, end_ndx = 3, buf = [0x68, 0x69, 0x0A] @ replicate 125 0x00,
                tx = [0x68, 0x69, 0x0D, 0x0A]\<rparr>"
    by code_simp
  have e2: "\<lparr>start_ndx = 0, end_ndx = 3, buf = [0x68, 0x69, 0x0A] @ replicate 125 0x00,
             tx = [0x68, 0x69, 0x0D, 0x0A]\<rparr>\<lparr>start_ndx := end_ndx init + 3\<rparr>
            = \<lparr>start_ndx = 3, end_ndx = 3, buf = [0x68, 0x69, 0x0A] @ replicate 125 0x00,
                tx = [0x68, 0x69, 0x0D, 0x0A]\<rparr>"
    by (simp add: init_def)
  note t = read_hi_line [OF h1 h2 h3, of "[]" "[]", unfolded Let_def e1 e2]
  from t h1 h2 h3 show ?thesis by blast
qed

section \<open>Where the code departs from its specification\<close>

text \<open>
  C1. The claim is the invariant of a ring buffer; the macro breaks it once \<open>end_ndx\<close>
  has wrapped below \<open>start_ndx\<close>. From the initial state: the line \<open>a\<close> is entered and
  read (both indices are 2), then a line of 125 characters is entered. Now
  \<open>start_ndx = 2\<close> and \<open>end_ndx = 1\<close>, and \<open>buf_len\<close> is \<open>-1\<close>, where
  \<open>(end_ndx - start_ndx) mod 127\<close> is 126.
\<close>

theorem buf_len_negative_after_wrap:
  "sys_read 0 10 [0x61, 0x0D] init =
     Some (2, [0x61, 0x0A],
       \<lparr>start_ndx = 2, end_ndx = 2, buf = [0x61, 0x0A] @ replicate 126 0x00,
        tx = [0x61, 0x0D, 0x0A]\<rparr>, []) \<and>
   get_buffered_line (replicate 125 0x78 @ [0x0D])
       \<lparr>start_ndx = 2, end_ndx = 2, buf = [0x61, 0x0A] @ replicate 126 0x00,
        tx = [0x61, 0x0D, 0x0A]\<rparr> =
     Some (\<lparr>start_ndx = 2, end_ndx = 1,
            buf = [0x0A, 0x00] @ replicate 125 0x78 @ [0x00],
            tx = [0x61, 0x0D, 0x0A] @ replicate 125 0x78 @ [0x0D, 0x0A]\<rparr>, []) \<and>
   buf_len \<lparr>start_ndx = 2, end_ndx = 1,
            buf = [0x0A, 0x00] @ replicate 125 0x78 @ [0x00],
            tx = [0x61, 0x0D, 0x0A] @ replicate 125 0x78 @ [0x0D, 0x0A]\<rparr> = - 1 \<and>
   ((1::int) - 2) mod BUFLEN = 126"
  by code_simp

text \<open>
  C2. On \<open>foo bar\<close> followed by \<open>0x17\<close>, from the initial state, the loop tests
  \<open>buf[end_ndx]\<close>, the slot after the last stored character, so it stops one character
  late: four characters are erased, \<open>end_ndx\<close> is 3 and the buffered content is \<open>foo\<close>,
  without the space. Completed with a carriage return, the line read back is the 4 bytes
  \<open>f\<close>, \<open>o\<close>, \<open>o\<close> and the newline.
\<close>

theorem erase_word_takes_the_space_too:
  "line_steps [0x66, 0x6F, 0x6F, 0x20, 0x62, 0x61, 0x72, 0x17] init =
     \<lparr>start_ndx = 0, end_ndx = 3,
      buf = [0x66, 0x6F, 0x6F, 0x20, 0x62, 0x61, 0x72] @ replicate 121 0x00,
      tx = [0x66, 0x6F, 0x6F, 0x20, 0x62, 0x61, 0x72,
            0x08, 0x20, 0x08, 0x08, 0x20, 0x08, 0x08, 0x20, 0x08, 0x08, 0x20, 0x08]\<rparr> \<and>
   sys_read 0 10 [0x66, 0x6F, 0x6F, 0x20, 0x62, 0x61, 0x72, 0x17, 0x0D] init =
     Some (4, [0x66, 0x6F, 0x6F, 0x0A],
       \<lparr>start_ndx = 4, end_ndx = 4,
        buf = [0x66, 0x6F, 0x6F, 0x0A, 0x00, 0x61, 0x72] @ replicate 121 0x00,
        tx = [0x66, 0x6F, 0x6F, 0x20, 0x62, 0x61, 0x72,
              0x08, 0x20, 0x08, 0x08, 0x20, 0x08, 0x08, 0x20, 0x08, 0x08, 0x20, 0x08,
              0x0D, 0x0A]\<rparr>, [])"
  by code_simp

text \<open>
  C4. A line of 125 characters is entered and read, which leaves the buffer empty at
  index 126. One more ordinary byte \<open>a\<close> is then stored at index 126 and \<open>end_ndx\<close> wraps
  to 0: \<open>buf_len\<close> is \<open>-126\<close>, not 1, and the loop of \<open>_read\<close> yields no byte.
\<close>

theorem fifo_lost_after_wrap:
  "sys_read 0 200 (replicate 125 0x78 @ [0x0D]) init =
     Some (126, replicate 125 0x78 @ [0x0A],
       \<lparr>start_ndx = 126, end_ndx = 126, buf = replicate 125 0x78 @ [0x0A, 0x00, 0x00],
        tx = replicate 125 0x78 @ [0x0D, 0x0A]\<rparr>, []) \<and>
   line_steps [0x61]
       \<lparr>start_ndx = 126, end_ndx = 126, buf = replicate 125 0x78 @ [0x0A, 0x00, 0x00],
        tx = replicate 125 0x78 @ [0x0D, 0x0A]\<rparr> =
     \<lparr>start_ndx = 126, end_ndx = 0, buf = replicate 125 0x78 @ [0x0A, 0x61, 0x00],
      tx = replicate 125 0x78 @ [0x0D, 0x0A, 0x61]\<rparr> \<and>
   buf_len \<lparr>start_ndx = 126, end_ndx = 0, buf = replicate 125 0x78 @ [0x0A, 0x61, 0x00],
      tx = replicate 125 0x78 @ [0x0D, 0x0A, 0x61]\<rparr> = - 126 \<and>
   sys_read 0 1 []
       \<lparr>start_ndx = 126, end_ndx = 0, buf = replicate 125 0x78 @ [0x0A, 0x61, 0x00],
        tx = replicate 125 0x78 @ [0x0D, 0x0A, 0x61]\<rparr> =
     Some (0, [],
       \<lparr>start_ndx = 126, end_ndx = 0, buf = replicate 125 0x78 @ [0x0A, 0x61, 0x00],
        tx = replicate 125 0x78 @ [0x0D, 0x0A, 0x61]\<rparr>, [])"
  by code_simp

text \<open>
  C9. With the counter at \<open>2^32 - 500\<close> the sum \<open>system_millis + delay\<close> for
  \<open>delay = 1000\<close> wraps to 500, the first test \<open>wake > system_millis\<close> fails, and
  \<open>msleep\<close> returns with the counter where it was: no tick has passed.
\<close>

theorem msleep_wrapped_deadline_returns_at_once:
  "msleep 1000 4294966796 [] = Some 4294966796 \<and>
   msleep 1000 4294966796 [0, 1, 1] = Some 4294966796"
  by code_simp

end
